theory Spec2Isabelle
  imports Main "HOL-Library.FSet" "HOL-Library.Product_Lexorder"
begin

section \<open>Data model\<close>

text \<open>
  A cell is a pair of Python integers (row, column). A Python \<open>set\<close> of cells is a finite
  set, so it is an \<open>fset\<close>; \<open>len\<close> of a set is \<open>fcard\<close>. Python lists are lists.
\<close>

type_synonym cell = "int \<times> int"

datatype error = ValueError | IndexError

subsection \<open>class Minesweeper\<close>

text \<open>
  Python indexing of a list: a negative index counts from the end, an index out of
  range raises \<open>IndexError\<close>.
\<close>

definition py_index :: "'a list \<Rightarrow> int \<Rightarrow> error + 'a" where
  "py_index xs i =
     (let n = int (length xs); k = (if i < 0 then n + i else i)
      in if 0 \<le> k \<and> k < n then Inr (xs ! nat k) else Inl IndexError)"

record minesweeper =
  ms_height :: int
  ms_width :: int
  ms_mines :: "cell fset"
  board :: "bool list list"
  mines_found :: "cell fset"

definition board_at :: "minesweeper \<Rightarrow> int \<Rightarrow> int \<Rightarrow> error + bool" where
  "board_at b i j = (case py_index (board b) i of Inl e \<Rightarrow> Inl e | Inr row \<Rightarrow> py_index row j)"

definition is_mine :: "minesweeper \<Rightarrow> cell \<Rightarrow> error + bool" where
  "is_mine b cell = (case cell of (i, j) \<Rightarrow> board_at b i j)"

text \<open>\<open>nearby_mines\<close>: the two \<open>for\<close> loops run over the 3 by 3 block around the cell.\<close>

fun count_mines :: "minesweeper \<Rightarrow> cell \<Rightarrow> cell list \<Rightarrow> int \<Rightarrow> error + int" where
  "count_mines b cell [] n = Inr n"
| "count_mines b cell ((i, j) # rest) n =
     (if (i, j) = cell then count_mines b cell rest n
      else if 0 \<le> i \<and> i < ms_height b \<and> 0 \<le> j \<and> j < ms_width b
      then (case board_at b i j of
              Inl e \<Rightarrow> Inl e
            | Inr m \<Rightarrow> count_mines b cell rest (if m then n + 1 else n))
      else count_mines b cell rest n)"

definition nearby_mines :: "minesweeper \<Rightarrow> cell \<Rightarrow> error + int" where
  "nearby_mines b cell =
     count_mines b cell
       (concat (map (\<lambda>i. map (\<lambda>j. (i, j)) [snd cell - 1..snd cell + 1])
                    [fst cell - 1..fst cell + 1])) 0"

text \<open>
  \<open>Minesweeper.__init__\<close>. The random source is an infinite sequence \<open>rnd\<close> of raw
  draws, the \<open>k\<close>-th call of \<open>random.randrange(n)\<close> returning \<open>rnd k mod n\<close>;
  \<open>randrange\<close> raises \<open>ValueError\<close> on an empty range. The placement loop may run
  forever, which is the value \<open>None\<close>.
\<close>

definition randrange :: "(nat \<Rightarrow> nat) \<Rightarrow> nat \<Rightarrow> int \<Rightarrow> error + int" where
  "randrange rnd k n = (if n \<le> 0 then Inl ValueError else Inr (int (rnd k) mod n))"

definition empty_board :: "int \<Rightarrow> int \<Rightarrow> minesweeper" where
  "empty_board h w =
     \<lparr>ms_height = h, ms_width = w, ms_mines = {||},
      board = replicate (nat h) (replicate (nat w) False), mines_found = {||}\<rparr>"

partial_function (option)
  place_mines :: "(nat \<Rightarrow> nat) \<Rightarrow> int \<Rightarrow> nat \<Rightarrow> minesweeper \<Rightarrow> (error + minesweeper) option"
where
  "place_mines rnd target k st =
     (if int (fcard (ms_mines st)) \<noteq> target
      then (case randrange rnd k (ms_height st) of
              Inl e \<Rightarrow> Some (Inl e)
            | Inr i \<Rightarrow>
               (case randrange rnd (k + 1) (ms_width st) of
                  Inl e \<Rightarrow> Some (Inl e)
                | Inr j \<Rightarrow>
                   (case board_at st i j of
                      Inl e \<Rightarrow> Some (Inl e)
                    | Inr m \<Rightarrow>
                       if \<not> m
                       then place_mines rnd target (k + 2)
                              (st\<lparr>ms_mines := finsert (i, j) (ms_mines st),
                                  board := (board st)[nat i := (board st ! nat i)[nat j := True]]\<rparr>)
                       else place_mines rnd target (k + 2) st)))
      else Some (Inr st))"

definition Minesweeper :: "(nat \<Rightarrow> nat) \<Rightarrow> int \<Rightarrow> int \<Rightarrow> int \<Rightarrow> (error + minesweeper) option" where
  "Minesweeper rnd h w m =
     map_option (map_sum id (\<lambda>st. st\<lparr>mines_found := {||}\<rparr>))
       (place_mines rnd m 0 (empty_board h w))"

subsection \<open>class Sentence\<close>

text \<open>
  \<open>Sentence.__init__\<close> stores \<open>set(cells)\<close> (a fresh set, never shared between two
  sentences) and \<open>count\<close>. \<open>__eq__\<close> compares both fields, which is the equality of the
  record; Python derives \<open>!=\<close> from \<open>__eq__\<close>.
\<close>

record sentence =
  cells :: "cell fset"
  count :: int

definition Sentence :: "cell fset \<Rightarrow> int \<Rightarrow> sentence" where
  "Sentence cs n = \<lparr>cells = cs, count = n\<rparr>"

definition known_mines :: "sentence \<Rightarrow> cell fset" where
  "known_mines s = (if int (fcard (cells s)) = count s then cells s else {||})"

definition known_safes :: "sentence \<Rightarrow> cell fset" where
  "known_safes s = (if count s = 0 then cells s else {||})"

text \<open>The two mutators return the changed sentence together with the returned flag.\<close>

definition sentence_mark_mine :: "sentence \<Rightarrow> cell \<Rightarrow> sentence \<times> bool" where
  "sentence_mark_mine s c =
     (if c |\<in>| cells s
      then (s\<lparr>cells := cells s |-| {|c|}, count := count s - 1\<rparr>, True)
      else (s, False))"

definition sentence_mark_safe :: "sentence \<Rightarrow> cell \<Rightarrow> sentence \<times> bool" where
  "sentence_mark_safe s c =
     (if c |\<in>| cells s
      then (s\<lparr>cells := cells s |-| {|c|}\<rparr>, True)
      else (s, False))"

subsection \<open>class MinesweeperAI\<close>

record minesweeper_ai =
  height :: int
  width :: int
  moves_made :: "cell fset"
  mines :: "cell fset"
  safes :: "cell fset"
  knowledge :: "sentence list"

definition init_ai :: "int \<Rightarrow> int \<Rightarrow> minesweeper_ai" where
  "init_ai h w =
     \<lparr>height = h, width = w, moves_made = {||}, mines = {||}, safes = {||}, knowledge = []\<rparr>"

definition mark_mine :: "minesweeper_ai \<Rightarrow> cell \<Rightarrow> minesweeper_ai" where
  "mark_mine kb c =
     kb\<lparr>mines := finsert c (mines kb),
        knowledge := map (\<lambda>s. fst (sentence_mark_mine s c)) (knowledge kb)\<rparr>"

definition mark_safe :: "minesweeper_ai \<Rightarrow> cell \<Rightarrow> minesweeper_ai" where
  "mark_safe kb c =
     kb\<lparr>safes := finsert c (safes kb),
        knowledge := map (\<lambda>s. fst (sentence_mark_safe s c)) (knowledge kb)\<rparr>"

text \<open>
  \<open>mark_cells\<close>. The scan builds the two local lists \<open>safes\<close> and \<open>mines\<close>; a cell is
  appended when it is neither in the list already nor in the corresponding set of the
  agent. Python iterates a set in an order the program cannot observe; the model walks
  it in sorted order; \<open>mark_cells_knowledge\<close>, \<open>mark_cells_safes\<close> and
  \<open>mark_cells_mines\<close> below give the outcome in terms of the sets of cells collected, so
  it does not depend on the order.
\<close>

fun collect :: "cell list \<Rightarrow> cell fset \<Rightarrow> cell list \<Rightarrow> cell list" where
  "collect [] known acc = acc"
| "collect (x # xs) known acc =
     collect xs known (if x \<notin> set acc \<and> x |\<notin>| known then acc @ [x] else acc)"

definition scan :: "minesweeper_ai \<Rightarrow> cell list \<times> cell list" where
  "scan kb =
     fold (\<lambda>s (sf, mn).
             (collect (sorted_list_of_fset (known_safes s)) (safes kb) sf,
              collect (sorted_list_of_fset (known_mines s)) (mines kb) mn))
          (knowledge kb) ([], [])"

definition mark_cells :: "minesweeper_ai \<Rightarrow> minesweeper_ai" where
  "mark_cells kb =
     (case scan kb of (sf, mn) \<Rightarrow>
        fold (\<lambda>c k. mark_mine k c) mn (fold (\<lambda>c k. mark_safe k c) sf kb))"

text \<open>The neighbours of \<open>cell\<close> in the order \<open>add_knowledge\<close> appends them.\<close>

definition neighbors :: "minesweeper_ai \<Rightarrow> cell \<Rightarrow> cell list" where
  "neighbors kb cell =
     (case cell of (i, j) \<Rightarrow>
        (if i > 0
         then [(i - 1, j)]
              @ (if j > 0 then [(i - 1, j - 1)] else [])
              @ (if j < width kb - 1 then [(i - 1, j + 1)] else [])
         else [])
        @ (if i < height kb - 1
           then [(i + 1, j)]
                @ (if j > 0 then [(i + 1, j - 1)] else [])
                @ (if j < width kb - 1 then [(i + 1, j + 1)] else [])
           else [])
        @ (if j < width kb - 1 then [(i, j + 1)] else [])
        @ (if j > 0 then [(i, j - 1)] else []))"

text \<open>
  The normalisation loop of \<open>add_knowledge\<close>: one round over \<open>self.mines\<close> for every
  sentence of \<open>self.knowledge\<close> (so no round at all when \<open>knowledge\<close> is empty). A
  round walks \<open>self.mines\<close> in sorted order; by \<open>normalize_round_eq\<close> below the order
  does not matter.
\<close>

definition normalize_round :: "cell fset \<Rightarrow> sentence \<Rightarrow> sentence" where
  "normalize_round ms new =
     fold (\<lambda>known_mine n.
             if known_mine |\<in>| cells n then fst (sentence_mark_mine n known_mine) else n)
          (sorted_list_of_fset ms) new"

definition normalize :: "minesweeper_ai \<Rightarrow> sentence \<Rightarrow> sentence" where
  "normalize kb new = fold (\<lambda>sentence n. normalize_round (mines kb) n) (knowledge kb) new"

text \<open>The resolution loops of \<open>add_knowledge\<close>, which build the list \<open>new_sentences\<close>.\<close>

definition candidate :: "sentence list \<Rightarrow> sentence \<Rightarrow> sentence \<Rightarrow> sentence list" where
  "candidate kn sentence1 sentence2 =
     (if sentence1 \<noteq> sentence2
      then (if cells sentence1 |\<subseteq>| cells sentence2
            then (let modified_set = cells sentence2 |-| cells sentence1;
                      modified_count = count sentence2 - count sentence1
                  in if fcard modified_set > 0 \<and> modified_count \<ge> 0
                     then (let new_sentence = Sentence modified_set modified_count
                           in if new_sentence \<notin> set kn then [new_sentence] else [])
                     else [])
            else [])
      else [])"

definition new_sentences :: "sentence list \<Rightarrow> sentence list" where
  "new_sentences kn =
     concat (map (\<lambda>sentence1. concat (map (\<lambda>sentence2. candidate kn sentence1 sentence2) kn)) kn)"

definition resolve :: "minesweeper_ai \<Rightarrow> minesweeper_ai" where
  "resolve kb = kb\<lparr>knowledge := knowledge kb @ new_sentences (knowledge kb)\<rparr>"

text \<open>
  The first part of \<open>add_knowledge\<close>, up to the conditional append of \<open>newSentence\<close>.
  The revealed cell is added to \<open>self.safes\<close> directly (line 202), not through
  \<open>mark_safe\<close>.
\<close>

definition add_sentence :: "minesweeper_ai \<Rightarrow> cell \<Rightarrow> int \<Rightarrow> minesweeper_ai" where
  "add_sentence kb cell n =
     (let kb1 = kb\<lparr>moves_made := finsert cell (moves_made kb),
                   safes := finsert cell (safes kb)\<rparr>;
          cs = filter (\<lambda>neighbor. neighbor |\<notin>| safes kb1) (neighbors kb1 cell);
          newSentence = normalize kb1 (Sentence (fset_of_list cs) n)
      in if newSentence \<notin> set (knowledge kb1)
         then kb1\<lparr>knowledge := knowledge kb1 @ [newSentence]\<rparr>
         else kb1)"

definition add_knowledge :: "minesweeper_ai \<Rightarrow> cell \<Rightarrow> int \<Rightarrow> minesweeper_ai" where
  "add_knowledge kb cell n = mark_cells (resolve (mark_cells (add_sentence kb cell n)))"

text \<open>A sequence of \<open>add_knowledge\<close> calls, first call first.\<close>

fun observe_all :: "minesweeper_ai \<Rightarrow> (cell \<times> int) list \<Rightarrow> minesweeper_ai" where
  "observe_all kb [] = kb"
| "observe_all kb ((c, n) # obs) = observe_all (add_knowledge kb c n) obs"

text \<open>\<open>range(n)\<close> for a Python integer \<open>n\<close>, and the grid in row-major order.\<close>

definition py_range :: "int \<Rightarrow> int list" where
  "py_range n = [0..n - 1]"

definition make_random_move :: "minesweeper_ai \<Rightarrow> cell option" where
  "make_random_move kb =
     find (\<lambda>c. c |\<notin>| moves_made kb \<and> c |\<notin>| mines kb)
          (concat (map (\<lambda>i. map (\<lambda>j. (i, j)) (py_range (width kb))) (py_range (height kb))))"

subsection \<open>Auxiliary notions used in the statements\<close>

text \<open>Row-major order on cells, and the grid as \<open>make_random_move\<close> walks it.\<close>

definition row_major :: "cell \<Rightarrow> cell \<Rightarrow> bool" where
  "row_major a b \<longleftrightarrow> fst a < fst b \<or> fst a = fst b \<and> snd a < snd b"

definition grid_cells :: "int \<Rightarrow> int \<Rightarrow> cell list" where
  "grid_cells h w = concat (map (\<lambda>i. map (\<lambda>j. (i, j)) (py_range w)) (py_range h))"

text \<open>
  The invariant of the placement loop: the dimensions are fixed, the placed mines are
  grid cells, and the board has \<open>h\<close> rows of \<open>w\<close> entries.
\<close>

definition placing :: "int \<Rightarrow> int \<Rightarrow> minesweeper \<Rightarrow> bool" where
  "placing h w st \<longleftrightarrow>
     ms_height st = h \<and> ms_width st = w
     \<and> fset (ms_mines st) \<subseteq> set (grid_cells h w)
     \<and> length (board st) = nat h \<and> (\<forall>row\<in>set (board st). length row = nat w)"

text \<open>
  Ground truth. A board as \<open>Minesweeper.__init__\<close> builds it has \<open>height\<close> rows of
  \<open>width\<close> entries; its mines are the grid cells for which \<open>is_mine\<close> returns \<open>True\<close>.
  An observation \<open>(cell, count)\<close> is truthful for a board when \<open>cell\<close> is a grid cell
  that is not a mine and \<open>count\<close> is what \<open>nearby_mines\<close> returns for it.
\<close>

definition well_formed :: "minesweeper \<Rightarrow> bool" where
  "well_formed b \<longleftrightarrow>
     length (board b) = nat (ms_height b) \<and> (\<forall>row\<in>set (board b). length row = nat (ms_width b))"

definition board_mines :: "minesweeper \<Rightarrow> cell fset" where
  "board_mines b =
     ffilter (\<lambda>c. is_mine b c = Inr True) (fset_of_list (grid_cells (ms_height b) (ms_width b)))"

definition truthful :: "minesweeper \<Rightarrow> cell \<times> int \<Rightarrow> bool" where
  "truthful b obs =
     (case obs of ((i, j), n) \<Rightarrow>
        0 \<le> i \<and> i < ms_height b \<and> 0 \<le> j \<and> j < ms_width b
        \<and> is_mine b (i, j) = Inr False \<and> nearby_mines b (i, j) = Inr n)"

text \<open>
  A sentence holds for a set \<open>M\<close> of mines when exactly \<open>count\<close> of its cells are in
  \<open>M\<close>. The agent's state is sound for \<open>M\<close> when its \<open>mines\<close> are in \<open>M\<close>, its \<open>safes\<close>
  are not, and every sentence of \<open>knowledge\<close> holds.
\<close>

definition holds :: "cell fset \<Rightarrow> sentence \<Rightarrow> bool" where
  "holds M s \<longleftrightarrow> int (fcard (cells s |\<inter>| M)) = count s"

definition sound :: "cell fset \<Rightarrow> minesweeper_ai \<Rightarrow> bool" where
  "sound M kb \<longleftrightarrow>
     mines kb |\<subseteq>| M \<and> safes kb |\<inter>| M = {||} \<and> (\<forall>s\<in>set (knowledge kb). holds M s)"

text \<open>The board flags and the set \<open>self.mines\<close> of a \<open>Minesweeper\<close> agree.\<close>

definition consistent :: "minesweeper \<Rightarrow> bool" where
  "consistent st \<longleftrightarrow>
     (\<forall>i j. 0 \<le> i \<and> i < ms_height st \<and> 0 \<le> j \<and> j < ms_width st \<longrightarrow>
        (board st ! nat i ! nat j \<longleftrightarrow> (i, j) |\<in>| ms_mines st))"

section \<open>Properties\<close>

subsection \<open>Sentence: certain cells\<close>

text \<open>
  C8. For every sentence, \<open>known_mines\<close> returns exactly the cell set when the count
  equals the number of cells and the empty set otherwise, and \<open>known_safes\<close> returns
  exactly the cell set when the count is 0 and the empty set otherwise. Both are
  functions of the sentence alone and return only a set: the sentence is not changed.
\<close>

theorem certain_cell_extraction:
  "known_mines s = (if count s = int (fcard (cells s)) then cells s else {||})
   \<and> known_safes s = (if count s = 0 then cells s else {||})"
  by (auto simp: known_mines_def known_safes_def)

subsection \<open>Move selection\<close>

lemma py_range_set: "set (py_range n) = {i. 0 \<le> i \<and> i < n}"
  by (auto simp: py_range_def)

lemma grid_set: "set (grid_cells h w) = {(i, j). 0 \<le> i \<and> i < h \<and> 0 \<le> j \<and> j < w}"
  by (auto simp: grid_cells_def py_range_set)

lemma sorted_rows:
  "sorted_wrt (<) is \<Longrightarrow> sorted_wrt (<) js \<Longrightarrow>
   sorted_wrt row_major (concat (map (\<lambda>i. map (\<lambda>j. (i, j)) js) is))"
proof (induction "is")
  case Nil
  then show ?case by simp
next
  case (Cons i "is")
  then show ?case
    by (auto simp: sorted_wrt_append sorted_wrt_map row_major_def)
qed

lemma sorted_grid: "sorted_wrt row_major (grid_cells h w)"
  unfolding grid_cells_def py_range_def by (rule sorted_rows) simp_all

lemma find_first:
  "sorted_wrt row_major xs \<Longrightarrow>
   find P xs = Some x \<longleftrightarrow> x \<in> set xs \<and> P x \<and> (\<forall>y\<in>set xs. row_major y x \<longrightarrow> \<not> P y)"
proof (induction xs)
  case Nil
  then show ?case by simp
next
  case (Cons a xs)
  then show ?case
    by (auto simp: row_major_def)
qed

lemma find_none: "find P xs = None \<longleftrightarrow> (\<forall>x\<in>set xs. \<not> P x)"
  by (induction xs) auto

text \<open>
  C9. \<open>make_random_move\<close> is a function of the agent's state (no random source enters
  it) and returns only a cell or \<open>None\<close>. It returns \<open>(i, j)\<close> exactly when \<open>(i, j)\<close> is
  a grid cell that is neither in \<open>moves_made\<close> nor in \<open>mines\<close> and every grid cell
  before it in row-major order is in one of the two; it returns \<open>None\<close> exactly when
  every grid cell is in \<open>moves_made\<close> or in \<open>mines\<close>.
\<close>

theorem make_random_move_first:
  "(make_random_move kb = Some (i, j) \<longleftrightarrow>
      (0 \<le> i \<and> i < height kb \<and> 0 \<le> j \<and> j < width kb
       \<and> (i, j) |\<notin>| moves_made kb \<and> (i, j) |\<notin>| mines kb
       \<and> (\<forall>i' j'. 0 \<le> i' \<and> i' < height kb \<and> 0 \<le> j' \<and> j' < width kb
                  \<and> (i' < i \<or> i' = i \<and> j' < j)
                  \<longrightarrow> (i', j') |\<in>| moves_made kb \<or> (i', j') |\<in>| mines kb)))
   \<and> (make_random_move kb = None \<longleftrightarrow>
      (\<forall>i' j'. 0 \<le> i' \<and> i' < height kb \<and> 0 \<le> j' \<and> j' < width kb
                  \<longrightarrow> (i', j') |\<in>| moves_made kb \<or> (i', j') |\<in>| mines kb))"
proof -
  have m: "make_random_move kb =
             find (\<lambda>c. c |\<notin>| moves_made kb \<and> c |\<notin>| mines kb) (grid_cells (height kb) (width kb))"
    by (simp add: make_random_move_def grid_cells_def)
  have a: "make_random_move kb = Some (i, j) \<longleftrightarrow>
      (0 \<le> i \<and> i < height kb \<and> 0 \<le> j \<and> j < width kb
       \<and> (i, j) |\<notin>| moves_made kb \<and> (i, j) |\<notin>| mines kb
       \<and> (\<forall>i' j'. 0 \<le> i' \<and> i' < height kb \<and> 0 \<le> j' \<and> j' < width kb
                  \<and> (i' < i \<or> i' = i \<and> j' < j)
                  \<longrightarrow> (i', j') |\<in>| moves_made kb \<or> (i', j') |\<in>| mines kb))"
    unfolding m find_first [OF sorted_grid] grid_set row_major_def by auto
  have b: "make_random_move kb = None \<longleftrightarrow>
      (\<forall>i' j'. 0 \<le> i' \<and> i' < height kb \<and> 0 \<le> j' \<and> j' < width kb
                  \<longrightarrow> (i', j') |\<in>| moves_made kb \<or> (i', j') |\<in>| mines kb)"
    unfolding m find_none grid_set by auto
  from a b show ?thesis by blast
qed

theorem make_random_move_first_witness:
  "make_random_move ((init_ai 1 2)\<lparr>moves_made := {|(0, 0)|}\<rparr>) = Some (0, 1)
   \<and> make_random_move ((init_ai 1 2)\<lparr>moves_made := {|(0, 0)|}, mines := {|(0, 1)|}\<rparr>) = None"
proof -
  have a: "\<forall>i' j'. 0 \<le> i' \<and> i' < (1::int) \<and> 0 \<le> j' \<and> j' < (2::int) \<and> (i' < 0 \<or> i' = 0 \<and> j' < 1)
             \<longrightarrow> (i', j') |\<in>| {|(0, 0)|} \<or> (i', j') |\<in>| {||}"
    by (simp; presburger)
  have b: "\<forall>i' j'. 0 \<le> i' \<and> i' < (1::int) \<and> 0 \<le> j' \<and> j' < (2::int)
             \<longrightarrow> (i', j') |\<in>| {|(0, 0)|} \<or> (i', j') |\<in>| {|(0, 1)|}"
    by (simp; presburger)
  show ?thesis
    using a b
      make_random_move_first [of "(init_ai 1 2)\<lparr>moves_made := {|(0, 0)|}\<rparr>" 0 1]
      make_random_move_first [of "(init_ai 1 2)\<lparr>moves_made := {|(0, 0)|}, mines := {|(0, 1)|}\<rparr>" 0 0]
    by (simp add: init_ai_def)
qed

subsection \<open>Board construction\<close>




lemma placing_empty: "placing h w (empty_board h w)"
  by (simp add: placing_def empty_board_def)


lemma placing_step:
  assumes "placing h w st" "0 \<le> i" "i < h" "0 \<le> j" "j < w"
  shows "placing h w (st\<lparr>ms_mines := finsert (i, j) (ms_mines st),
                         board := (board st)[nat i := (board st ! nat i)[nat j := True]]\<rparr>)"
  using assms by (auto simp: placing_def grid_set dest!: set_update_subset_insert [THEN subsetD])





subsection \<open>The deduction pass\<close>

text \<open>
  What one pass of \<open>mark_cells\<close> adds to \<open>safes\<close> and \<open>mines\<close>; the sets do not
  depend on the order in which the cells are collected.
\<close>

lemma collect_set: "set (collect xs known acc) = set acc \<union> {x \<in> set xs. x |\<notin>| known}"
  by (induction xs known acc rule: collect.induct) auto

lemma scan_fold:
  "fold (\<lambda>s (sf, mn).
             (collect (sorted_list_of_fset (known_safes s)) S sf,
              collect (sorted_list_of_fset (known_mines s)) M mn)) kn (sf0, mn0) = (sf, mn) \<Longrightarrow>
   set sf = set sf0 \<union> {c. c |\<notin>| S \<and> (\<exists>s\<in>set kn. c |\<in>| known_safes s)}
   \<and> set mn = set mn0 \<union> {c. c |\<notin>| M \<and> (\<exists>s\<in>set kn. c |\<in>| known_mines s)}"
proof (induction kn arbitrary: sf0 mn0)
  case Nil
  then show ?case by simp
next
  case (Cons a kn)
  from Cons.prems Cons.IH [of "collect (sorted_list_of_fset (known_safes a)) S sf0"
       "collect (sorted_list_of_fset (known_mines a)) M mn0"]
  show ?case by (auto simp: collect_set)
qed

lemma scan_safes:
  "set (fst (scan kb)) = {c. c |\<notin>| safes kb \<and> (\<exists>s\<in>set (knowledge kb). c |\<in>| known_safes s)}"
  using scan_fold [of "safes kb" "mines kb" "knowledge kb" "[]" "[]" "fst (scan kb)" "snd (scan kb)"]
  by (simp add: scan_def)

lemma scan_mines:
  "set (snd (scan kb)) = {c. c |\<notin>| mines kb \<and> (\<exists>s\<in>set (knowledge kb). c |\<in>| known_mines s)}"
  using scan_fold [of "safes kb" "mines kb" "knowledge kb" "[]" "[]" "fst (scan kb)" "snd (scan kb)"]
  by (simp add: scan_def)

lemma fold_mark_safe_mines: "mines (fold (\<lambda>c k. mark_safe k c) xs kb) = mines kb"
  by (induction xs arbitrary: kb) (auto simp: mark_safe_def)

lemma fold_mark_safe_safes: "safes (fold (\<lambda>c k. mark_safe k c) xs kb) = safes kb |\<union>| fset_of_list xs"
  by (induction xs arbitrary: kb) (auto simp: mark_safe_def)

lemma fold_mark_mine_mines: "mines (fold (\<lambda>c k. mark_mine k c) xs kb) = mines kb |\<union>| fset_of_list xs"
  by (induction xs arbitrary: kb) (auto simp: mark_mine_def)

lemma fold_mark_mine_safes: "safes (fold (\<lambda>c k. mark_mine k c) xs kb) = safes kb"
  by (induction xs arbitrary: kb) (auto simp: mark_mine_def)

lemma mark_cells_mines: "mines (mark_cells kb) = mines kb |\<union>| fset_of_list (snd (scan kb))"
  by (simp add: mark_cells_def split_beta fold_mark_mine_mines fold_mark_safe_mines)

lemma mark_cells_safes: "safes (mark_cells kb) = safes kb |\<union>| fset_of_list (fst (scan kb))"
  by (simp add: mark_cells_def split_beta fold_mark_mine_safes fold_mark_safe_safes)


lemma mark_cells_safes_iff:
  "c |\<in>| safes (mark_cells kb) \<longleftrightarrow>
     c |\<in>| safes kb \<or> (\<exists>s\<in>set (knowledge kb). c |\<in>| known_safes s)"
  using scan_safes [of kb] by (auto simp: mark_cells_safes fset_of_list.rep_eq)

text \<open>
  The sentences after one pass, and the candidate after one normalisation round: both
  are determined by the sets of cells marked, not by the order of marking.
\<close>

lemma fst_sentence_mark_safe: "fst (sentence_mark_safe s c) = s\<lparr>cells := cells s |-| {|c|}\<rparr>"
  by (simp add: sentence_mark_safe_def)

lemma fcard_inter_finsert:
  "int (fcard (C |\<inter>| finsert c X))
     = (if c |\<in>| C then 1 else 0) + int (fcard ((C |-| {|c|}) |\<inter>| X))"
proof (cases "c |\<in>| C")
  case True
  then have "C |\<inter>| finsert c X = finsert c ((C |-| {|c|}) |\<inter>| X)" by auto
  moreover have "c |\<notin>| (C |-| {|c|}) |\<inter>| X" by simp
  ultimately show ?thesis using True by (simp add: fcard_finsert_disjoint)
next
  case False
  then have "C |\<inter>| finsert c X = (C |-| {|c|}) |\<inter>| X" by auto
  with False show ?thesis by simp
qed

lemma fst_sentence_mark_mine:
  "fst (sentence_mark_mine s c)
     = s\<lparr>cells := cells s |-| {|c|}, count := count s - (if c |\<in>| cells s then 1 else 0)\<rparr>"
  by (simp add: sentence_mark_mine_def)

lemma knowledge_mark_safe:
  "knowledge (mark_safe kb c) = map (\<lambda>s. s\<lparr>cells := cells s |-| {|c|}\<rparr>) (knowledge kb)"
  by (simp add: mark_safe_def fst_sentence_mark_safe)

lemma knowledge_mark_mine:
  "knowledge (mark_mine kb c)
     = map (\<lambda>s. s\<lparr>cells := cells s |-| {|c|},
                   count := count s - (if c |\<in>| cells s then 1 else 0)\<rparr>) (knowledge kb)"
  by (simp add: mark_mine_def fst_sentence_mark_mine)

lemma fminus_fminus_finsert: "A |-| {|c|} |-| X = A |-| finsert c X"
  by auto

lemma knowledge_fold_mark_safe:
  "knowledge (fold (\<lambda>c k. mark_safe k c) xs kb)
     = map (\<lambda>s. s\<lparr>cells := cells s |-| fset_of_list xs\<rparr>) (knowledge kb)"
proof (induction xs arbitrary: kb)
  case Nil
  then show ?case by simp
next
  case (Cons c xs)
  have "knowledge (fold (\<lambda>c k. mark_safe k c) (c # xs) kb)
      = map (\<lambda>s. s\<lparr>cells := cells s |-| fset_of_list xs\<rparr>) (knowledge (mark_safe kb c))"
    by (simp add: Cons.IH)
  then show ?case
    by (simp add: knowledge_mark_safe o_def fminus_fminus_finsert)
qed

lemma knowledge_fold_mark_mine:
  "knowledge (fold (\<lambda>c k. mark_mine k c) xs kb)
     = map (\<lambda>s. s\<lparr>cells := cells s |-| fset_of_list xs,
                   count := count s - int (fcard (cells s |\<inter>| fset_of_list xs))\<rparr>) (knowledge kb)"
proof (induction xs arbitrary: kb)
  case Nil
  then show ?case by (simp add: fcard_fempty)
next
  case (Cons c xs)
  have "knowledge (fold (\<lambda>c k. mark_mine k c) (c # xs) kb)
      = map (\<lambda>s. s\<lparr>cells := cells s |-| fset_of_list xs,
                   count := count s - int (fcard (cells s |\<inter>| fset_of_list xs))\<rparr>)
          (knowledge (mark_mine kb c))"
    by (simp add: Cons.IH)
  then show ?case
    by (simp add: knowledge_mark_mine o_def fminus_fminus_finsert fcard_inter_finsert [of _ c])
qed

lemma mark_cells_knowledge:
  "knowledge (mark_cells kb)
     = map (\<lambda>s. s\<lparr>cells := cells s |-| fset_of_list (fst (scan kb)) |-| fset_of_list (snd (scan kb)),
                   count := count s - int (fcard ((cells s |-| fset_of_list (fst (scan kb)))
                                                   |\<inter>| fset_of_list (snd (scan kb))))\<rparr>)
           (knowledge kb)"
  by (simp add: mark_cells_def split_beta knowledge_fold_mark_mine knowledge_fold_mark_safe o_def)

lemma normalize_round_eq:
  "normalize_round ms n
     = n\<lparr>cells := cells n |-| ms, count := count n - int (fcard (cells n |\<inter>| ms))\<rparr>"
proof -
  have "fold (\<lambda>known_mine n.
             if known_mine |\<in>| cells n then fst (sentence_mark_mine n known_mine) else n) xs n
        = n\<lparr>cells := cells n |-| fset_of_list xs,
             count := count n - int (fcard (cells n |\<inter>| fset_of_list xs))\<rparr>" for xs
  proof (induction xs arbitrary: n)
    case Nil
    then show ?case by (simp add: fcard_fempty)
  next
    case (Cons c xs)
    have e: "cells s |-| {|c|} |-| fset_of_list xs = cells s |-| finsert c (fset_of_list xs)" for s :: sentence
      by auto
    have d: "c |\<notin>| cells s \<Longrightarrow> cells s |-| {|c|} = cells s" for s :: sentence
      by auto
    show ?case
      by (simp add: Cons.IH fst_sentence_mark_mine fcard_inter_finsert [of _ c] e d)
  qed
  from this [of "sorted_list_of_fset ms"] show ?thesis
    by (simp add: normalize_round_def)
qed






subsection \<open>Resolution\<close>

lemma fcard_pos: "0 < fcard A \<longleftrightarrow> A \<noteq> {||}"
  using fcard_0_eq [of A] by (auto simp: fcard_fempty)

lemma candidate_iff:
  "s \<in> set (candidate kn A B) \<longleftrightarrow>
     A \<noteq> B \<and> cells A |\<subseteq>| cells B
     \<and> s = Sentence (cells B |-| cells A) (count B - count A)
     \<and> cells s \<noteq> {||} \<and> 0 \<le> count s \<and> s \<notin> set kn"
  by (cases "s = Sentence (cells B |-| cells A) (count B - count A)")
     (auto simp: candidate_def Let_def fcard_pos Sentence_def)

lemma new_sentences_iff:
  "s \<in> set (new_sentences kn) \<longleftrightarrow>
     (\<exists>A\<in>set kn. \<exists>B\<in>set kn.
        A \<noteq> B \<and> cells A |\<subseteq>| cells B
        \<and> s = Sentence (cells B |-| cells A) (count B - count A)
        \<and> cells s \<noteq> {||} \<and> 0 \<le> count s \<and> s \<notin> set kn)"
  unfolding new_sentences_def by (auto simp: candidate_iff)



subsection \<open>Deduplication of derived sentences\<close>

text \<open>
  C7 at a concrete input. On the 2 by 3 board with mines at \<open>(0,0)\<close> and \<open>(0,2)\<close>, after
  the truthful calls for \<open>(1,0)\<close>, \<open>(1,2)\<close> and \<open>(0,1)\<close>, the call
  \<open>add_knowledge((1,1), 2)\<close> derives the sentence \<open>{(0,1)} = 0\<close> from two pairs. Each copy
  passes the test against \<open>knowledge\<close>, which does not contain the other copy yet, and
  both are appended: the second one is appended while an equal sentence is present.
\<close>

theorem derived_duplicates:
  "new_sentences (knowledge (mark_cells (add_sentence
      (observe_all (init_ai 2 3) [((1, 0), 1), ((1, 2), 1), ((0, 1), 2)]) (1, 1) 2)))
     = [Sentence {|(0, 1)|} 0, Sentence {|(0, 1)|} 0]
   \<and> drop 4 (knowledge (observe_all (init_ai 2 3)
        [((1, 0), 1), ((1, 2), 1), ((0, 1), 2), ((1, 1), 2)]))
     = [Sentence {|(0, 1)|} 0, Sentence {|(0, 1)|} 0]"
  by code_simp

subsection \<open>The revealed cell\<close>

text \<open>The agent's own \<open>mark_safe\<close> and \<open>mark_mine\<close> do remove the cell from every sentence.\<close>

lemma mark_safe_purges: "s \<in> set (knowledge (mark_safe kb c)) \<Longrightarrow> c |\<notin>| cells s"
  by (auto simp: knowledge_mark_safe)

lemma mark_mine_purges: "s \<in> set (knowledge (mark_mine kb c)) \<Longrightarrow> c |\<notin>| cells s"
  by (auto simp: knowledge_mark_mine)

text \<open>
  C2 at a concrete input. On a 3 by 3 board with a single mine at \<open>(1,1)\<close>, after
  \<open>add_knowledge((0,0), 1)\<close> and \<open>add_knowledge((0,1), 1)\<close> the cell \<open>(0,1)\<close> is in \<open>safes\<close>
  and still in the cell set of the first sentence: \<open>add_knowledge\<close> adds the revealed
  cell to \<open>self.safes\<close> without calling \<open>mark_safe\<close>.
\<close>

theorem revealed_cell_not_purged:
  "(0, 1) |\<in>| safes (observe_all (init_ai 3 3) [((0, 0), 1), ((0, 1), 1)])
   \<and> (0, 1) |\<in>| cells (knowledge (observe_all (init_ai 3 3) [((0, 0), 1), ((0, 1), 1)]) ! 0)"
  by code_simp

subsection \<open>Sound states\<close>

text \<open>Each operation of the agent keeps a sound state sound.\<close>

lemma holds_mark_mine:
  assumes "holds M s" "c |\<in>| M"
  shows "holds M (fst (sentence_mark_mine s c))"
proof (cases "c |\<in>| cells s")
  case True
  have e: "(cells s |-| {|c|}) |\<inter>| M = (cells s |\<inter>| M) |-| {|c|}" by auto
  have "c |\<in>| cells s |\<inter>| M" using True assms(2) by simp
  then have "Suc (fcard ((cells s |\<inter>| M) |-| {|c|})) = fcard (cells s |\<inter>| M)"
    by (rule fcard_Suc_fminus1)
  then have "int (fcard ((cells s |\<inter>| M) |-| {|c|})) = int (fcard (cells s |\<inter>| M)) - 1"
    by linarith
  with assms(1) True show ?thesis
    by (simp add: holds_def sentence_mark_mine_def e)
next
  case False
  with assms(1) show ?thesis by (simp add: sentence_mark_mine_def)
qed

lemma holds_mark_safe:
  assumes "holds M s" "c |\<notin>| M"
  shows "holds M (fst (sentence_mark_safe s c))"
proof -
  have "(cells s |-| {|c|}) |\<inter>| M = cells s |\<inter>| M" using assms(2) by auto
  with assms(1) show ?thesis by (simp add: holds_def sentence_mark_safe_def)
qed

lemma holds_known_safes:
  assumes "holds M s" "c |\<in>| known_safes s"
  shows "c |\<notin>| M"
proof -
  from assms(2) have z: "count s = 0" and c: "c |\<in>| cells s"
    by (auto simp: known_safes_def split: if_splits)
  from assms(1) z have "cells s |\<inter>| M = {||}" by (simp add: holds_def)
  with c show ?thesis by auto
qed

lemma holds_known_mines:
  assumes "holds M s" "c |\<in>| known_mines s"
  shows "c |\<in>| M"
proof -
  from assms(2) have z: "int (fcard (cells s)) = count s" and c: "c |\<in>| cells s"
    by (auto simp: known_mines_def split: if_splits)
  from assms(1) z have "fcard (cells s) \<le> fcard (cells s |\<inter>| M)" by (simp add: holds_def)
  then have "cells s |\<inter>| M = cells s" by (intro fcard_seteq) auto
  with c show ?thesis by auto
qed

lemma holds_difference:
  assumes "holds M A" "holds M B" "cells A |\<subseteq>| cells B"
  shows "holds M (Sentence (cells B |-| cells A) (count B - count A))"
proof -
  have e: "(cells B |-| cells A) |\<inter>| M = (cells B |\<inter>| M) |-| (cells A |\<inter>| M)" by auto
  have s: "cells A |\<inter>| M |\<subseteq>| cells B |\<inter>| M" using assms(3) by auto
  have "fcard ((cells B |\<inter>| M) |-| (cells A |\<inter>| M)) = fcard (cells B |\<inter>| M) - fcard (cells A |\<inter>| M)"
    using s by (rule fcard_funion_fsubset)
  moreover have "fcard (cells A |\<inter>| M) \<le> fcard (cells B |\<inter>| M)" using s by (rule fcard_mono)
  ultimately have "int (fcard ((cells B |\<inter>| M) |-| (cells A |\<inter>| M)))
      = int (fcard (cells B |\<inter>| M)) - int (fcard (cells A |\<inter>| M))" by linarith
  with assms(1,2) show ?thesis by (simp add: holds_def Sentence_def e)
qed

lemma holds_bounds:
  assumes "holds M s"
  shows "0 \<le> count s \<and> count s \<le> int (fcard (cells s))"
proof -
  have "fcard (cells s |\<inter>| M) \<le> fcard (cells s)" by (intro fcard_mono) auto
  with assms show ?thesis by (simp add: holds_def)
qed

lemma sound_mark_safe: "sound M kb \<Longrightarrow> c |\<notin>| M \<Longrightarrow> sound M (mark_safe kb c)"
  by (auto simp: sound_def mark_safe_def holds_mark_safe)

lemma sound_mark_mine: "sound M kb \<Longrightarrow> c |\<in>| M \<Longrightarrow> sound M (mark_mine kb c)"
  by (auto simp: sound_def mark_mine_def holds_mark_mine)

lemma sound_fold_mark_safe:
  "sound M kb \<Longrightarrow> \<forall>c\<in>set xs. c |\<notin>| M \<Longrightarrow> sound M (fold (\<lambda>c k. mark_safe k c) xs kb)"
  by (induction xs arbitrary: kb) (simp_all add: sound_mark_safe)

lemma sound_fold_mark_mine:
  "sound M kb \<Longrightarrow> \<forall>c\<in>set xs. c |\<in>| M \<Longrightarrow> sound M (fold (\<lambda>c k. mark_mine k c) xs kb)"
  by (induction xs arbitrary: kb) (simp_all add: sound_mark_mine)

lemma sound_mark_cells:
  assumes "sound M kb"
  shows "sound M (mark_cells kb)"
proof -
  have sf: "\<forall>c\<in>set (fst (scan kb)). c |\<notin>| M"
    using assms unfolding scan_safes sound_def by (blast dest: holds_known_safes)
  have mn: "\<forall>c\<in>set (snd (scan kb)). c |\<in>| M"
    using assms unfolding scan_mines sound_def by (blast dest: holds_known_mines)
  show ?thesis
    unfolding mark_cells_def split_beta
    by (intro sound_fold_mark_mine sound_fold_mark_safe assms sf mn)
qed

lemma sound_resolve:
  assumes "sound M kb"
  shows "sound M (resolve kb)"
proof -
  have "holds M s" if "s \<in> set (new_sentences (knowledge kb))" for s
  proof -
    from that obtain A B where "A \<in> set (knowledge kb)" "B \<in> set (knowledge kb)"
      "cells A |\<subseteq>| cells B" "s = Sentence (cells B |-| cells A) (count B - count A)"
      unfolding new_sentences_iff by blast
    with assms show ?thesis by (simp add: sound_def holds_difference)
  qed
  with assms show ?thesis by (auto simp: sound_def resolve_def)
qed

lemma holds_fold_mark_mine:
  "holds M n \<Longrightarrow> \<forall>c\<in>set xs. c |\<in>| M \<Longrightarrow>
   holds M (fold (\<lambda>known_mine n.
             if known_mine |\<in>| cells n then fst (sentence_mark_mine n known_mine) else n) xs n)"
  by (induction xs arbitrary: n) (simp_all add: holds_mark_mine)

lemma holds_normalize_round:
  assumes "holds M n" "ms |\<subseteq>| M"
  shows "holds M (normalize_round ms n)"
  unfolding normalize_round_def
  using assms by (intro holds_fold_mark_mine) auto

lemma holds_fold_normalize_round:
  "holds M n \<Longrightarrow> ms |\<subseteq>| M \<Longrightarrow>
   holds M (fold (\<lambda>sentence n. normalize_round ms n) (kn :: sentence list) n)"
  by (induction kn arbitrary: n) (simp_all add: holds_normalize_round)

lemma holds_normalize:
  assumes "holds M n" "mines kb |\<subseteq>| M"
  shows "holds M (normalize kb n)"
  unfolding normalize_def using assms by (rule holds_fold_normalize_round)

lemma sound_add_sentence:
  assumes s: "sound M kb" and c: "c |\<notin>| M"
    and n: "int (fcard (fset_of_list (neighbors kb c) |\<inter>| M)) = n"
  shows "sound M (add_sentence kb c n)"
proof -
  let ?kb1 = "kb\<lparr>moves_made := finsert c (moves_made kb), safes := finsert c (safes kb)\<rparr>"
  let ?cs = "filter (\<lambda>neighbor. neighbor |\<notin>| safes ?kb1) (neighbors ?kb1 c)"
  have s1: "sound M ?kb1" using s c by (auto simp: sound_def)
  have nb: "neighbors ?kb1 c = neighbors kb c" by (cases c) (simp add: neighbors_def)
  have "fset_of_list ?cs |\<inter>| M = fset_of_list (neighbors kb c) |\<inter>| M"
    using s1 unfolding nb by (auto simp: sound_def fset_of_list.rep_eq)
  then have "holds M (Sentence (fset_of_list ?cs) n)"
    using n by (simp add: holds_def Sentence_def)
  then have h: "holds M (normalize ?kb1 (Sentence (fset_of_list ?cs) n))"
    using s1 by (intro holds_normalize) (simp_all add: sound_def)
  show ?thesis
    unfolding add_sentence_def Let_def using s1 h by (auto simp: sound_def)
qed

lemma height_mark_cells: "height (mark_cells kb) = height kb \<and> width (mark_cells kb) = width kb"
proof -
  have a: "height (fold (\<lambda>c k. mark_safe k c) xs kb) = height kb
           \<and> width (fold (\<lambda>c k. mark_safe k c) xs kb) = width kb" for xs kb
    by (induction xs arbitrary: kb) (simp_all add: mark_safe_def)
  have b: "height (fold (\<lambda>c k. mark_mine k c) xs kb) = height kb
           \<and> width (fold (\<lambda>c k. mark_mine k c) xs kb) = width kb" for xs kb
    by (induction xs arbitrary: kb) (simp_all add: mark_mine_def)
  show ?thesis by (simp add: mark_cells_def split_beta a b)
qed

lemma height_add_knowledge:
  "height (add_knowledge kb c n) = height kb \<and> width (add_knowledge kb c n) = width kb"
  by (simp add: add_knowledge_def height_mark_cells resolve_def add_sentence_def Let_def)

lemma sound_add_knowledge:
  assumes "sound M kb" "c |\<notin>| M" "int (fcard (fset_of_list (neighbors kb c) |\<inter>| M)) = n"
  shows "sound M (add_knowledge kb c n)"
  unfolding add_knowledge_def
  by (intro sound_mark_cells sound_resolve sound_add_sentence assms)

subsection \<open>Truthful observations\<close>

text \<open>
  On a well-formed board \<open>nearby_mines\<close> never raises, and what it returns for a grid
  cell is the number of mines among the neighbours that \<open>add_knowledge\<close> computes.
\<close>

lemma board_at_well_formed:
  assumes "well_formed b" "0 \<le> i" "i < ms_height b" "0 \<le> j" "j < ms_width b"
  shows "board_at b i j = Inr (board b ! nat i ! nat j)"
  using assms by (auto simp: well_formed_def board_at_def py_index_def Let_def)

lemma board_mines_iff:
  "(i, j) |\<in>| board_mines b \<longleftrightarrow>
     0 \<le> i \<and> i < ms_height b \<and> 0 \<le> j \<and> j < ms_width b \<and> is_mine b (i, j) = Inr True"
  by (auto simp: board_mines_def fset_of_list.rep_eq grid_set)

lemma count_mines_well_formed:
  assumes "well_formed b"
  shows "count_mines b cell xs n =
           Inr (n + int (length (filter (\<lambda>c. c \<noteq> cell \<and> c |\<in>| board_mines b) xs)))"
proof (induction xs arbitrary: n)
  case Nil
  then show ?case by simp
next
  case (Cons x xs)
  obtain i j where x: "x = (i, j)" by (cases x)
  show ?case
  proof (cases "0 \<le> i \<and> i < ms_height b \<and> 0 \<le> j \<and> j < ms_width b")
    case True
    then have "board_at b i j = Inr (board b ! nat i ! nat j)"
      using assms by (intro board_at_well_formed) simp_all
    with True show ?thesis
      by (simp add: x Cons.IH board_mines_iff is_mine_def)
  next
    case False
    then show ?thesis
      by (auto simp: x Cons.IH board_mines_iff)
  qed
qed

lemma block_distinct:
  "distinct (concat (map (\<lambda>a. map (\<lambda>b. (a, b)) [j - 1..j + 1]) [i - 1..i + 1]))"
  unfolding product_concat_map [symmetric] by (simp add: distinct_product)

lemma block_set:
  "set (concat (map (\<lambda>a. map (\<lambda>b. (a, b)) [j - 1..j + 1]) [i - 1..i + 1]))
     = {(a, b). i - 1 \<le> a \<and> a \<le> i + 1 \<and> j - 1 \<le> b \<and> b \<le> j + 1}"
  unfolding product_concat_map [symmetric] by (auto simp only: set_product set_upto mem_Sigma_iff atLeastAtMost_iff mem_Collect_eq case_prod_conv)

lemma set_if_list: "set (if c then xs else []) = {y. c \<and> y \<in> set xs}"
  by simp

lemma neighbors_iff:
  assumes "0 \<le> i" "i < height kb" "0 \<le> j" "j < width kb"
  shows "(a, b) \<in> set (neighbors kb (i, j)) \<longleftrightarrow>
     (a, b) \<noteq> (i, j) \<and> i - 1 \<le> a \<and> a \<le> i + 1 \<and> j - 1 \<le> b \<and> b \<le> j + 1
                \<and> 0 \<le> a \<and> a < height kb \<and> 0 \<le> b \<and> b < width kb"
  using assms
  apply (simp add: neighbors_def set_if_list split del: if_split)
  apply presburger
  done

lemma nearby_mines_neighbors:
  assumes wf: "well_formed b" and hw: "height kb = ms_height b" "width kb = ms_width b"
    and ib: "0 \<le> i" "i < ms_height b" "0 \<le> j" "j < ms_width b"
  shows "nearby_mines b (i, j) =
           Inr (int (fcard (fset_of_list (neighbors kb (i, j)) |\<inter>| board_mines b)))"
proof -
  let ?block = "concat (map (\<lambda>a. map (\<lambda>b. (a, b)) [j - 1..j + 1]) [i - 1..i + 1])"
  let ?P = "\<lambda>c. c \<noteq> (i, j) \<and> c |\<in>| board_mines b"
  have "set (filter ?P ?block) = set (neighbors kb (i, j)) \<inter> fset (board_mines b)"
  proof (rule set_eqI)
    fix c :: cell
    obtain a b' where c: "c = (a, b')" by (cases c)
    have n: "(a, b') \<in> set (neighbors kb (i, j)) \<longleftrightarrow>
       (a, b') \<noteq> (i, j) \<and> i - 1 \<le> a \<and> a \<le> i + 1 \<and> j - 1 \<le> b' \<and> b' \<le> j + 1
                \<and> 0 \<le> a \<and> a < height kb \<and> 0 \<le> b' \<and> b' < width kb"
      using ib by (intro neighbors_iff) (simp_all add: hw)
    have m: "(a, b') |\<in>| board_mines b \<Longrightarrow> 0 \<le> a \<and> a < height kb \<and> 0 \<le> b' \<and> b' < width kb"
      by (simp add: board_mines_iff hw)
    show "c \<in> set (filter ?P ?block) \<longleftrightarrow> c \<in> set (neighbors kb (i, j)) \<inter> fset (board_mines b)"
      unfolding c set_filter block_set Int_iff n using m by auto
  qed
  moreover have "length (filter ?P ?block) = card (set (filter ?P ?block))"
    by (simp only: distinct_card [OF distinct_filter [OF block_distinct]])
  moreover have "fcard (fset_of_list (neighbors kb (i, j)) |\<inter>| board_mines b)
       = card (set (neighbors kb (i, j)) \<inter> fset (board_mines b))"
    by (simp add: fcard.rep_eq fset_of_list.rep_eq)
  ultimately have "length (filter ?P ?block)
       = fcard (fset_of_list (neighbors kb (i, j)) |\<inter>| board_mines b)"
    by simp
  then show ?thesis
    by (simp add: nearby_mines_def count_mines_well_formed [OF wf])
qed

lemma is_mine_board_mines:
  "c |\<in>| board_mines b \<Longrightarrow> is_mine b c = Inr True"
  by (cases c) (simp add: board_mines_iff)

lemma not_mine_board_mines:
  "is_mine b c = Inr False \<Longrightarrow> c |\<notin>| board_mines b"
  by (cases c) (simp add: board_mines_iff)

lemma sound_init: "sound M (init_ai h w)"
  by (simp add: sound_def init_ai_def)

lemma observe_all_append:
  "observe_all kb (obs @ obs') = observe_all (observe_all kb obs) obs'"
  by (induction kb obs rule: observe_all.induct) simp_all

lemma sound_observe_all:
  assumes wf: "well_formed b"
  shows "sound (board_mines b) kb \<Longrightarrow> height kb = ms_height b \<Longrightarrow> width kb = ms_width b \<Longrightarrow>
         \<forall>ob\<in>set obs. truthful b ob \<Longrightarrow> sound (board_mines b) (observe_all kb obs)"
proof (induction kb obs rule: observe_all.induct)
  case (1 kb)
  then show ?case by simp
next
  case (2 kb c n obs)
  obtain i j where c: "c = (i, j)" by (cases c)
  from "2.prems"(4) have t: "truthful b ((i, j), n)" by (simp add: c)
  then have ib: "0 \<le> i" "i < ms_height b" "0 \<le> j" "j < ms_width b"
    and nm: "is_mine b (i, j) = Inr False" and nb: "nearby_mines b (i, j) = Inr n"
    by (simp_all add: truthful_def)
  have "int (fcard (fset_of_list (neighbors kb (i, j)) |\<inter>| board_mines b)) = n"
    using nearby_mines_neighbors [OF wf "2.prems"(2,3) ib] nb by simp
  then have s: "sound (board_mines b) (add_knowledge kb c n)"
    unfolding c using "2.prems"(1) not_mine_board_mines [OF nm]
    by (intro sound_add_knowledge) simp_all
  show ?case
    using "2.IH" [OF s] "2.prems"(2,3,4) by (simp add: height_add_knowledge)
qed

lemma safes_add_sentence: "safes (add_sentence kb c n) = finsert c (safes kb)"
  by (simp add: add_sentence_def Let_def)

lemma mines_add_sentence: "mines (add_sentence kb c n) = mines kb"
  by (simp add: add_sentence_def Let_def)

lemma safes_add_knowledge: "safes kb |\<subseteq>| safes (add_knowledge kb c n)"
  by (auto simp: add_knowledge_def mark_cells_safes resolve_def safes_add_sentence)

lemma mines_add_knowledge: "mines kb |\<subseteq>| mines (add_knowledge kb c n)"
  by (auto simp: add_knowledge_def mark_cells_mines resolve_def mines_add_sentence)

lemma sound_disjoint: "sound M kb \<Longrightarrow> safes kb |\<inter>| mines kb = {||}"
  by (auto simp: sound_def)

subsection \<open>Boards built by the constructor\<close>

text \<open>
  Every board that \<open>Minesweeper.__init__\<close> returns is well formed, holds exactly the
  requested number of mines, and its flags agree with \<open>self.mines\<close>; the constructor
  does return boards.
\<close>

lemma consistent_empty: "consistent (empty_board h w)"
  by (simp add: consistent_def empty_board_def)

lemma consistent_step:
  assumes p: "placing h w st" and c: "consistent st"
    and i: "0 \<le> i" "i < h" and j: "0 \<le> j" "j < w"
  shows "consistent (st\<lparr>ms_mines := finsert (i, j) (ms_mines st),
                         board := (board st)[nat i := (board st ! nat i)[nat j := True]]\<rparr>)"
proof -
  have hw: "ms_height st = h" "ms_width st = w" and lb: "length (board st) = nat h"
    and lr: "\<And>a. 0 \<le> a \<Longrightarrow> a < h \<Longrightarrow> length (board st ! nat a) = nat w"
    using p by (auto simp: placing_def)
  show ?thesis
    unfolding consistent_def
  proof (intro allI impI)
    fix a b
    assume ab: "0 \<le> a \<and> a < ms_height (st\<lparr>ms_mines := finsert (i, j) (ms_mines st),
                         board := (board st)[nat i := (board st ! nat i)[nat j := True]]\<rparr>)
        \<and> 0 \<le> b \<and> b < ms_width (st\<lparr>ms_mines := finsert (i, j) (ms_mines st),
                         board := (board st)[nat i := (board st ! nat i)[nat j := True]]\<rparr>)"
    then have a: "0 \<le> a" "a < h" and b: "0 \<le> b" "b < w" by (simp_all add: hw)
    have old: "board st ! nat a ! nat b \<longleftrightarrow> (a, b) |\<in>| ms_mines st"
      using c a b by (simp add: consistent_def hw)
    have ni: "nat i < length (board st)" using i lb by simp
    have nj: "nat j < length (board st ! nat i)" using lr [OF i] j by simp
    have eqa: "nat a = nat i \<longleftrightarrow> a = i" using a i by auto
    have eqb: "nat b = nat j \<longleftrightarrow> b = j" using b j by auto
    show "board (st\<lparr>ms_mines := finsert (i, j) (ms_mines st),
                         board := (board st)[nat i := (board st ! nat i)[nat j := True]]\<rparr>) ! nat a ! nat b
          \<longleftrightarrow> (a, b) |\<in>| ms_mines (st\<lparr>ms_mines := finsert (i, j) (ms_mines st),
                         board := (board st)[nat i := (board st ! nat i)[nat j := True]]\<rparr>)"
      using old ni nj eqa eqb by (auto simp: nth_list_update)
  qed
qed

lemma place_mines_result:
  assumes "place_mines rnd target k st = Some y"
  shows "placing h w st \<and> consistent st \<longrightarrow>
         (\<forall>b. y = Inr b \<longrightarrow> placing h w b \<and> consistent b \<and> int (fcard (ms_mines b)) = target)"
proof (rule place_mines.raw_induct
    [where P = "\<lambda>rnd target k st y. placing h w st \<and> consistent st \<longrightarrow>
         (\<forall>b. y = Inr b \<longrightarrow> placing h w b \<and> consistent b \<and> int (fcard (ms_mines b)) = target)",
     OF _ assms])
  fix pm :: "(nat \<Rightarrow> nat) \<Rightarrow> int \<Rightarrow> nat \<Rightarrow> minesweeper \<Rightarrow> (error + minesweeper) option"
  fix r t n s z
  assume IH: "\<And>r' t' n' s' z'. pm r' t' n' s' = Some z' \<Longrightarrow>
                placing h w s' \<and> consistent s' \<longrightarrow>
         (\<forall>b. z' = Inr b \<longrightarrow> placing h w b \<and> consistent b \<and> int (fcard (ms_mines b)) = t')"
  assume eq:
    "(if int (fcard (ms_mines s)) \<noteq> t
      then (case randrange r n (ms_height s) of
              Inl e \<Rightarrow> Some (Inl e)
            | Inr i \<Rightarrow>
               (case randrange r (n + 1) (ms_width s) of
                  Inl e \<Rightarrow> Some (Inl e)
                | Inr j \<Rightarrow>
                   (case board_at s i j of
                      Inl e \<Rightarrow> Some (Inl e)
                    | Inr m \<Rightarrow>
                       if \<not> m
                       then pm r t (n + 2)
                              (s\<lparr>ms_mines := finsert (i, j) (ms_mines s),
                                 board := (board s)[nat i := (board s ! nat i)[nat j := True]]\<rparr>)
                       else pm r t (n + 2) s)))
      else Some (Inr s)) = Some z"
  show "placing h w s \<and> consistent s \<longrightarrow>
         (\<forall>b. z = Inr b \<longrightarrow> placing h w b \<and> consistent b \<and> int (fcard (ms_mines b)) = t)"
  proof (intro impI allI)
    fix b
    assume pc: "placing h w s \<and> consistent s" and z: "z = Inr b"
    then have p: "placing h w s" and c: "consistent s" by simp_all
    have hw: "ms_height s = h" "ms_width s = w" using p by (simp_all add: placing_def)
    show "placing h w b \<and> consistent b \<and> int (fcard (ms_mines b)) = t"
    proof (cases "int (fcard (ms_mines s)) = t")
      case True
      with eq z p c show ?thesis by simp
    next
      case False
      with eq z obtain i j m where ri: "randrange r n h = Inr i"
        and rj: "randrange r (n + 1) w = Inr j" and bm: "board_at s i j = Inr m"
        and rec: "(if \<not> m
                       then pm r t (n + 2)
                              (s\<lparr>ms_mines := finsert (i, j) (ms_mines s),
                                 board := (board s)[nat i := (board s ! nat i)[nat j := True]]\<rparr>)
                       else pm r t (n + 2) s) = Some (Inr b)"
        by (auto simp: hw split: sum.splits)
      from ri have i: "0 \<le> i" "i < h" by (auto simp: randrange_def split: if_splits)
      from rj have j: "0 \<le> j" "j < w" by (auto simp: randrange_def split: if_splits)
      show ?thesis
      proof (cases m)
        case True
        with rec have "pm r t (n + 2) s = Some (Inr b)" by simp
        from IH [OF this] pc show ?thesis by simp
      next
        case False
        with rec have "pm r t (n + 2)
                              (s\<lparr>ms_mines := finsert (i, j) (ms_mines s),
                                 board := (board s)[nat i := (board s ! nat i)[nat j := True]]\<rparr>)
                        = Some (Inr b)" by simp
        from IH [OF this] placing_step [OF p i j] consistent_step [OF p c i j]
        show ?thesis by simp
      qed
    qed
  qed
qed

lemma placing_well_formed: "placing h w b \<Longrightarrow> well_formed b"
  by (simp add: placing_def well_formed_def)

lemma board_mines_consistent:
  assumes "placing h w b" "consistent b"
  shows "board_mines b = ms_mines b"
proof (rule fset_eqI)
  fix c :: cell
  obtain i j where c: "c = (i, j)" by (cases c)
  have hw: "ms_height b = h" "ms_width b = w" using assms(1) by (simp_all add: placing_def)
  have g: "(i, j) |\<in>| ms_mines b \<Longrightarrow> 0 \<le> i \<and> i < h \<and> 0 \<le> j \<and> j < w"
    using assms(1) by (auto simp: placing_def grid_set)
  show "c |\<in>| board_mines b \<longleftrightarrow> c |\<in>| ms_mines b"
  proof (cases "0 \<le> i \<and> i < h \<and> 0 \<le> j \<and> j < w")
    case True
    then have "board_at b i j = Inr (board b ! nat i ! nat j)"
      by (intro board_at_well_formed placing_well_formed [OF assms(1)]) (simp_all add: hw)
    with True assms(2) show ?thesis
      by (auto simp: c board_mines_iff is_mine_def hw consistent_def)
  next
    case False
    with g show ?thesis by (auto simp: c board_mines_iff hw)
  qed
qed

lemma Minesweeper_board:
  assumes "Minesweeper rnd h w m = Some (Inr b)"
  shows "well_formed b \<and> ms_height b = h \<and> ms_width b = w
         \<and> board_mines b = ms_mines b \<and> int (fcard (ms_mines b)) = m"
proof -
  from assms obtain z where z: "place_mines rnd m 0 (empty_board h w) = Some z"
    and zb: "map_sum id (\<lambda>st. st\<lparr>mines_found := {||}\<rparr>) z = Inr b"
    by (auto simp: Minesweeper_def)
  from zb obtain st where st': "z = Inr st" and b: "b = st\<lparr>mines_found := {||}\<rparr>"
    by (cases z) auto
  from z st' have st: "place_mines rnd m 0 (empty_board h w) = Some (Inr st)" by simp
  from place_mines_result [OF st, of h w] placing_empty consistent_empty
  have r: "placing h w st" "consistent st" "int (fcard (ms_mines st)) = m" by simp_all
  have pb: "placing h w b" using r(1) by (simp add: b placing_def)
  have cb: "consistent b" using r(2) by (simp add: b consistent_def)
  from pb cb r(3) show ?thesis
    using placing_well_formed [OF pb] board_mines_consistent [OF pb cb]
    by (simp add: b placing_def)
qed

lemma placement_example:
  "Minesweeper (\<lambda>k. 0) 1 1 1
     = Some (Inr \<lparr>ms_height = 1, ms_width = 1, ms_mines = {|(0, 0)|},
                  board = [[True]], mines_found = {||}\<rparr>)"
proof -
  have "place_mines (\<lambda>k. 0) 1 0 (empty_board 1 1)
     = Some (Inr \<lparr>ms_height = 1, ms_width = 1, ms_mines = {|(0, 0)|},
                  board = [[True]], mines_found = {||}\<rparr>)"
    apply (subst place_mines.simps)
    apply (simp add: empty_board_def randrange_def fcard_fempty board_at_def py_index_def)
    apply (subst place_mines.simps)
    apply (simp add: fcard_finsert_if fcard_fempty)
    done
  then show ?thesis by (simp add: Minesweeper_def)
qed

subsection \<open>Soundness\<close>

text \<open>
  C1. Soundness of mine inference: for a fixed well-formed board and any sequence of
  \<open>add_knowledge\<close> calls each of which supplies a grid cell that is not a mine together
  with the count \<open>nearby_mines\<close> returns for it, every cell in the agent's \<open>mines\<close> after
  any number \<open>k\<close> of these calls is a mine of the board. (\<open>mines\<close> only grows, so a
  cell that is in it at any moment is in it after the call.)
\<close>

theorem mine_inference_sound:
  assumes "well_formed b" "\<forall>ob\<in>set obs. truthful b ob"
  shows "\<forall>k c. c |\<in>| mines (observe_all (init_ai (ms_height b) (ms_width b)) (take k obs))
                \<longrightarrow> is_mine b c = Inr True"
proof (intro allI impI)
  fix k c
  assume c: "c |\<in>| mines (observe_all (init_ai (ms_height b) (ms_width b)) (take k obs))"
  have "\<forall>ob\<in>set (take k obs). truthful b ob"
    using assms(2) by (blast dest: in_set_takeD)
  then have "sound (board_mines b) (observe_all (init_ai (ms_height b) (ms_width b)) (take k obs))"
    by (intro sound_observe_all assms(1) sound_init) (simp_all add: init_ai_def)
  with c have "c |\<in>| board_mines b" by (auto simp: sound_def)
  then show "is_mine b c = Inr True" by (rule is_mine_board_mines)
qed

theorem mine_inference_sound_witness:
  "(0, 1) |\<in>| mines (observe_all (init_ai 1 2) [((0, 0), 1)])
   \<and> is_mine \<lparr>ms_height = 1, ms_width = 2, ms_mines = {|(0, 1)|},
               board = [[False, True]], mines_found = {||}\<rparr> (0, 1) = Inr True"
proof -
  let ?b = "\<lparr>ms_height = 1, ms_width = 2, ms_mines = {|(0, 1)|},
             board = [[False, True]], mines_found = {||}\<rparr>"
  have wf: "well_formed ?b" by code_simp
  have tr: "\<forall>ob\<in>set [((0, 0), 1)]. truthful ?b ob" by code_simp
  have m: "(0, 1) |\<in>| mines (observe_all (init_ai 1 2) [((0, 0), 1)])" by code_simp
  from mine_inference_sound [OF wf tr, rule_format, of "(0, 1)" 1] m
  have "is_mine ?b (0, 1) = Inr True" by simp
  with m show ?thesis by simp
qed

text \<open>
  C6. Sentence count bounds: after any sequence of truthful \<open>add_knowledge\<close> calls on a
  fixed well-formed board, every sentence of \<open>knowledge\<close> satisfies
  \<open>0 \<le> count \<le> |cells|\<close>.
\<close>

theorem sentence_count_bounds:
  assumes "well_formed b" "\<forall>ob\<in>set obs. truthful b ob"
  shows "\<forall>s\<in>set (knowledge (observe_all (init_ai (ms_height b) (ms_width b)) obs)).
           0 \<le> count s \<and> count s \<le> int (fcard (cells s))"
proof -
  have "sound (board_mines b) (observe_all (init_ai (ms_height b) (ms_width b)) obs)"
    using assms(2) by (intro sound_observe_all assms(1) sound_init) (simp_all add: init_ai_def)
  then show ?thesis by (auto simp: sound_def dest: holds_bounds)
qed

theorem sentence_count_bounds_witness:
  "Sentence {|(0, 1), (1, 0), (1, 1)|} 1
     \<in> set (knowledge (observe_all (init_ai 2 2) [((0, 0), 1)]))
   \<and> (0::int) \<le> 1 \<and> (1::int) \<le> int (fcard {|(0::int, 1::int), (1, 0), (1, 1)|})"
proof -
  let ?b = "\<lparr>ms_height = 2, ms_width = 2, ms_mines = {|(1, 1)|},
             board = [[False, False], [False, True]], mines_found = {||}\<rparr>"
  have wf: "well_formed ?b" by code_simp
  have tr: "\<forall>ob\<in>set [((0, 0), 1)]. truthful ?b ob" by code_simp
  have m: "Sentence {|(0, 1), (1, 0), (1, 1)|} 1
     \<in> set (knowledge (observe_all (init_ai 2 2) [((0, 0), 1)]))" by code_simp
  from sentence_count_bounds [OF wf tr] m
  have "0 \<le> count (Sentence {|(0, 1), (1, 0), (1, 1)|} 1)
        \<and> count (Sentence {|(0, 1), (1, 0), (1, 1)|} 1)
            \<le> int (fcard (cells (Sentence {|(0, 1), (1, 0), (1, 1)|} 1)))"
    by simp
  with m show ?thesis by (simp add: Sentence_def)
qed

text \<open>
  C3, as amended. Monotonicity holds for every call: \<open>safes\<close> and \<open>mines\<close> after
  \<open>add_knowledge\<close> contain their values before the call, whatever the state and the
  arguments. Disjointness holds after every call of a sequence of truthful calls on a
  fixed well-formed board.
\<close>

theorem safes_mines_monotone_disjoint:
  "safes kb |\<subseteq>| safes (add_knowledge kb c n) \<and> mines kb |\<subseteq>| mines (add_knowledge kb c n)
   \<and> (well_formed b \<and> (\<forall>ob\<in>set obs. truthful b ob) \<longrightarrow>
        safes (observe_all (init_ai (ms_height b) (ms_width b)) obs)
          |\<inter>| mines (observe_all (init_ai (ms_height b) (ms_width b)) obs) = {||})"
proof -
  have "safes (observe_all (init_ai (ms_height b) (ms_width b)) obs)
          |\<inter>| mines (observe_all (init_ai (ms_height b) (ms_width b)) obs) = {||}"
    if "well_formed b" "\<forall>ob\<in>set obs. truthful b ob"
  proof -
    have "sound (board_mines b) (observe_all (init_ai (ms_height b) (ms_width b)) obs)"
      using that(2) by (intro sound_observe_all that(1) sound_init) (simp_all add: init_ai_def)
    then show ?thesis by (rule sound_disjoint)
  qed
  then show ?thesis using safes_add_knowledge mines_add_knowledge by blast
qed

theorem safes_mines_monotone_disjoint_witness:
  "safes (init_ai 1 2) |\<subseteq>| safes (add_knowledge (init_ai 1 2) (0, 0) 1)
   \<and> mines (init_ai 1 2) |\<subseteq>| mines (add_knowledge (init_ai 1 2) (0, 0) 1)
   \<and> safes (observe_all (init_ai 1 2) [((0, 0), 1)])
        |\<inter>| mines (observe_all (init_ai 1 2) [((0, 0), 1)]) = {||}"
proof -
  let ?b = "\<lparr>ms_height = 1, ms_width = 2, ms_mines = {|(0, 1)|},
             board = [[False, True]], mines_found = {||}\<rparr>"
  have wf: "well_formed ?b" by code_simp
  have tr: "\<forall>ob\<in>set [((0, 0), 1)]. truthful ?b ob" by code_simp
  from safes_mines_monotone_disjoint [of "init_ai 1 2" "(0, 0)" 1 ?b "[((0, 0), 1)]"] wf tr
  show ?thesis by simp
qed

text \<open>
  The claim as stated, for any sequence of calls, fails: on a 1 by 2 grid,
  \<open>add_knowledge((0,0), 1)\<close> makes \<open>(0,1)\<close> a known mine, and a following call
  \<open>add_knowledge((0,1), 0)\<close> adds \<open>(0,1)\<close> to \<open>safes\<close> as well.
\<close>

theorem safes_mines_overlap:
  "(0, 1) |\<in>| safes (observe_all (init_ai 1 2) [((0, 0), 1), ((0, 1), 0)])
   \<and> (0, 1) |\<in>| mines (observe_all (init_ai 1 2) [((0, 0), 1), ((0, 1), 0)])"
  by code_simp

end
